theory Spec2Isabelle
  imports Complex_Main "HOL-Library.Sublist" "HOL-Library.Monad_Syntax"
begin

section \<open>Text and bytes\<close>

text \<open>
  The three programs are Python 3. A Python \<open>str\<close> is modelled as a \<open>string\<close> whose
  characters are ASCII code points, and a \<open>bytes\<close> object as a \<open>string\<close> whose characters
  are the bytes. On ASCII text the UTF-8 encoding is the identity, so one type serves
  both; the predicate \<open>ascii\<close> marks the texts for which the model speaks.
\<close>

definition is_ascii :: "char \<Rightarrow> bool" where
  "is_ascii c \<longleftrightarrow> (of_char c :: nat) < 128"

definition ascii :: "string \<Rightarrow> bool" where
  "ascii s \<longleftrightarrow> list_all is_ascii s"

text \<open>
  \<open>str.encode("utf-8")\<close> on ASCII text.
\<close>

definition encode_utf8 :: "string \<Rightarrow> string" where
  "encode_utf8 s = s"

text \<open>
  \<open>bytes.decode("utf-8", errors="ignore")\<close>: an ASCII byte decodes to itself and a byte
  that cannot be decoded is dropped. Bytes from \<open>0x80\<close> on that form a valid multi-byte
  sequence decode to a code point outside ASCII, which this model does not represent.
  The definition is the decoder on ASCII datagrams only, and every statement below
  about a datagram is about a given ASCII datagram or carries the hypothesis \<open>ascii\<close>.
\<close>

definition decode_ignore :: "string \<Rightarrow> string" where
  "decode_ignore bs = filter is_ascii bs"

text \<open>
  The characters \<open>str.isspace\<close> accepts, which are also the characters \<open>str.strip()\<close>
  removes and the regular expression class \<open>\s\<close> matches on a \<open>str\<close>: in ASCII these are
  tab, line feed, vertical tab, form feed, carriage return, the four separators
  \<open>0x1C\<close> to \<open>0x1F\<close>, and space.
\<close>

definition isspace :: "char \<Rightarrow> bool" where
  "isspace c \<longleftrightarrow> c \<in> set [CHR 0x09, CHR 0x0A, CHR 0x0B, CHR 0x0C, CHR 0x0D,
                         CHR 0x1C, CHR 0x1D, CHR 0x1E, CHR 0x1F, CHR 0x20]"

definition lstrip :: "string \<Rightarrow> string" where
  "lstrip s = dropWhile isspace s"

definition rstrip :: "string \<Rightarrow> string" where
  "rstrip s = rev (dropWhile isspace (rev s))"

definition strip :: "string \<Rightarrow> string" where
  "strip s = rstrip (lstrip s)"

text \<open>
  \<open>s.find(pat)\<close>: the index of the first occurrence of \<open>pat\<close> in \<open>s\<close>; Python's \<open>-1\<close> is
  \<open>None\<close>. \<open>pat in s\<close> holds exactly when \<open>find\<close> finds an index.
\<close>

fun find :: "string \<Rightarrow> string \<Rightarrow> nat option" where
  "find pat [] = (if pat = [] then Some 0 else None)"
| "find pat (c # cs) =
     (if prefix pat (c # cs) then Some 0 else map_option Suc (find pat cs))"

definition contains :: "string \<Rightarrow> string \<Rightarrow> bool" where
  "contains pat s \<longleftrightarrow> find pat s \<noteq> None"

text \<open>
  \<open>bytes.ljust(n, b" ")\<close>: pad with spaces on the right up to length \<open>n\<close>.
\<close>

definition ljust :: "nat \<Rightarrow> string \<Rightarrow> string" where
  "ljust n bs = bs @ replicate (n - length bs) (CHR '' '')"

section \<open>OpenVLC/TX/tx\_send.py: the sender\<close>

text \<open>
  The packet size is the constant \<open>PACKET_SIZE = 800\<close> of both scripts; the functions
  below take it as a parameter, as the specification does.
\<close>

definition PACKET_SIZE :: nat where
  "PACKET_SIZE = 800"

datatype py_error = ValueError

text \<open>
  The packet loop \<open>for i in range(0, len(full_bytes), PACKET_SIZE)\<close>: the slice
  \<open>full_bytes[i:i + PACKET_SIZE]\<close>, padded when it is short, is appended to \<open>packets\<close>.
\<close>

function packet_loop :: "nat \<Rightarrow> nat \<Rightarrow> string \<Rightarrow> string list" where
  "packet_loop n i full_bytes =
     (if n = 0 \<or> length full_bytes \<le> i then []
      else (let chunk = take n (drop i full_bytes);
                chunk = (if length chunk < n then ljust n chunk else chunk)
            in chunk # packet_loop n (i + n) full_bytes))"
  by pat_completeness auto
termination
  by (relation "measure (\<lambda>(n, i, bs). length bs - i)") auto

text \<open>
  One round of the sender for the message \<open>user_msg\<close>, from the wrapping on: the
  packets handed to \<open>sendto\<close>, in order. The input \<open>quit\<close>, which ends the script
  before this point, is not a message. \<open>range\<close> raises \<open>ValueError\<close> for the step \<open>0\<close>.
\<close>

definition tx_send :: "nat \<Rightarrow> string \<Rightarrow> py_error + string list" where
  "tx_send n user_msg =
     (let full_msg = ''<START>'' @ user_msg @ ''<END>'';
          full_bytes = encode_utf8 full_msg
      in if n = 0 then Inl ValueError else Inr (packet_loop n 0 full_bytes))"

section \<open>OpenVLC/RX/rx\_relay.py: the receiver\<close>

record rx_state =
  buffer :: string
  inside_message :: bool

definition rx_init :: rx_state where
  "rx_init = \<lparr>buffer = [], inside_message = False\<rparr>"

text \<open>
  \<open>recvfrom(n)\<close> returns at most \<open>n\<close> bytes of the datagram.
\<close>

definition recvfrom :: "nat \<Rightarrow> string \<Rightarrow> string" where
  "recvfrom n datagram = take n datagram"

text \<open>
  The chunk the loop body works on: the received bytes, decoded and stripped.
\<close>

definition rx_chunk :: "nat \<Rightarrow> string \<Rightarrow> string" where
  "rx_chunk n datagram = strip (decode_ignore (recvfrom n datagram))"

text \<open>
  The start-marker branch of the loop body: the state and the chunk after it.
\<close>

definition rx_start :: "rx_state \<Rightarrow> string \<Rightarrow> rx_state \<times> string" where
  "rx_start st chunk =
     (case find ''<START>'' chunk of
        Some k \<Rightarrow> (\<lparr>buffer = [], inside_message = True\<rparr>,
                   drop (k + length ''<START>'') chunk)
      | None \<Rightarrow> (st, chunk))"

text \<open>
  One iteration of the receive loop on one datagram: the new state and the message
  completed by this datagram, if any. The script prints the message and relays
  \<open>"<START>" + buffer + "<END>"\<close> to the robot; the model returns the message.
\<close>

definition rx_packet :: "nat \<Rightarrow> rx_state \<Rightarrow> string \<Rightarrow> rx_state \<times> string option" where
  "rx_packet n st datagram =
     (let (st1, chunk) = rx_start st (rx_chunk n datagram)
      in if inside_message st1 then
           (case find ''<END>'' chunk of
              Some e \<Rightarrow> (\<lparr>buffer = [], inside_message = False\<rparr>,
                         Some (buffer st1 @ take e chunk))
            | None \<Rightarrow> (st1\<lparr>buffer := buffer st1 @ chunk\<rparr>, None))
         else (st1, None))"

text \<open>
  The receive loop over the datagrams that arrive, in order: the final state and the
  messages completed, in order.
\<close>

fun rx_loop :: "nat \<Rightarrow> rx_state \<Rightarrow> string list \<Rightarrow> rx_state \<times> string list" where
  "rx_loop n st [] = (st, [])"
| "rx_loop n st (d # ds) =
     (case rx_packet n st d of
        (st1, out) \<Rightarrow>
          (case rx_loop n st1 ds of
             (st2, outs) \<Rightarrow> (st2, (case out of None \<Rightarrow> outs | Some m \<Rightarrow> m # outs))))"

definition rx_messages :: "nat \<Rightarrow> string list \<Rightarrow> string list" where
  "rx_messages n ds = snd (rx_loop n rx_init ds)"

text \<open>
  What the specification calls \<open>reassemble(segment(wrap(M), S))\<close>: the sender's packets for
  \<open>M\<close>, received in order by a receiver that starts idle.
\<close>

definition roundtrip :: "nat \<Rightarrow> string \<Rightarrow> py_error + string list" where
  "roundtrip n M =
     (case tx_send n M of Inl e \<Rightarrow> Inl e | Inr pkts \<Rightarrow> Inr (rx_messages n pkts))"

section \<open>eth\_bridge\_move.py: the command bridge\<close>

definition newline :: char where
  "newline = CHR 0x0A"

definition COMMAND_HELP :: string where
  "COMMAND_HELP = concat (map (\<lambda>l. l @ [newline])
     ['''',
      ''Commands:'',
      ''  drive forward <meters> [speed <mps>]'',
      ''  drive backward <meters> [speed <mps>]'',
      ''  rotate clockwise <degrees> [speed <radps>]'',
      ''  rotate counterclockwise <degrees> [speed <radps>]'',
      ''  vel <linear_x_mps> <angular_z_radps>'',
      ''  stop'',
      '''',
      ''Examples:'',
      ''  drive forward 0.5 speed 0.25'',
      ''  rotate clockwise 90'',
      ''  vel 0.2 -0.3''])"

text \<open>
  A Python \<open>float\<close> is modelled by the real number it stands for. The handler only parses
  decimal literals, compares, takes absolute values and negates, and these commute with
  rounding to the nearest double; the one product, in \<open>math.radians\<close>, and the formatting
  of a float in a reply are left symbolic.
\<close>

definition clamp :: "real \<Rightarrow> real \<Rightarrow> real \<Rightarrow> real" where
  "clamp val lo hi = max lo (min val hi)"

subsection \<open>Regular-expression pieces\<close>

text \<open>
  The patterns of the script are sequences of literals, \<open>\s*\<close>, \<open>\s+\<close>, numbers and
  short alternations, in which no piece can match a text that the next piece could also
  start with. So the backtracking matcher of \<open>re\<close> finds a match exactly when the greedy
  left-to-right reading below does, with the same groups. Each piece takes the text still
  to be read and returns what is left of it, or \<open>None\<close> when it does not match.
  \<open>lower\<close> is \<open>str.lower\<close> on ASCII and serves for \<open>re.IGNORECASE\<close>, the literals being
  written in lower case.
\<close>

definition lower :: "char \<Rightarrow> char" where
  "lower c = (case map_of (zip ''ABCDEFGHIJKLMNOPQRSTUVWXYZ'' ''abcdefghijklmnopqrstuvwxyz'') c of
                Some l \<Rightarrow> l | None \<Rightarrow> c)"

definition isdigit :: "char \<Rightarrow> bool" where
  "isdigit c \<longleftrightarrow> c \<in> set ''0123456789''"

text \<open>
  \<open>\s*\<close> and \<open>\s+\<close>.
\<close>

definition ws_star :: "string \<Rightarrow> string" where
  "ws_star s = dropWhile isspace s"

definition ws_plus :: "string \<Rightarrow> string option" where
  "ws_plus s = (case s of [] \<Rightarrow> None
                | c # cs \<Rightarrow> if isspace c then Some (dropWhile isspace cs) else None)"

text \<open>
  A literal under \<open>re.IGNORECASE\<close>, and the same as a capturing group.
\<close>

definition lit_ci :: "string \<Rightarrow> string \<Rightarrow> string option" where
  "lit_ci w s = (if map lower (take (length w) s) = w then Some (drop (length w) s) else None)"

definition group_ci :: "string \<Rightarrow> string \<Rightarrow> (string \<times> string) option" where
  "group_ci w s = (if map lower (take (length w) s) = w
                   then Some (take (length w) s, drop (length w) s) else None)"

text \<open>
  \<open>a|b\<close>: the first alternative that matches.
\<close>

definition alt :: "'a option \<Rightarrow> 'a option \<Rightarrow> 'a option" where
  "alt a b = (case a of Some x \<Rightarrow> Some x | None \<Rightarrow> b)"

text \<open>
  \<open>\s*$\<close>: only whitespace is left.
\<close>

definition at_end :: "string \<Rightarrow> bool" where
  "at_end s \<longleftrightarrow> dropWhile isspace s = []"

text \<open>
  The group \<open>([+-]?\d+(?:\.\d+)?)\<close>, written \<open>NUM\<close> below: the matched text and the rest.
\<close>

definition num :: "string \<Rightarrow> (string \<times> string) option" where
  "num s =
     (let (sign, r) = (case s of [] \<Rightarrow> ([], s)
                       | c # cs \<Rightarrow> if c = CHR ''+'' \<or> c = CHR ''-'' then ([c], cs) else ([], s));
          ip = takeWhile isdigit r;
          r1 = dropWhile isdigit r
      in if ip = [] then None
         else (case r1 of
                 [] \<Rightarrow> Some (sign @ ip, r1)
               | c # r2 \<Rightarrow>
                   if c = CHR ''.'' \<and> takeWhile isdigit r2 \<noteq> []
                   then Some (sign @ ip @ [c] @ takeWhile isdigit r2, dropWhile isdigit r2)
                   else Some (sign @ ip, r1)))"

text \<open>
  \<open>float(s)\<close> for a text \<open>s\<close> that the number group matched: sign, integer digits and
  the digits after the point.
\<close>

definition digits_val :: "string \<Rightarrow> nat" where
  "digits_val ds = foldl (\<lambda>a c. 10 * a + (of_char c - 48)) 0 ds"

definition py_float :: "string \<Rightarrow> real" where
  "py_float s =
     (let (neg, r) = (case s of [] \<Rightarrow> (False, s)
                      | c # cs \<Rightarrow> if c = CHR ''-'' then (True, cs)
                                  else if c = CHR ''+'' then (False, cs) else (False, s));
          ip = takeWhile isdigit r;
          fp = drop 1 (dropWhile isdigit r);
          v = real (digits_val ip) + real (digits_val fp) / 10 ^ length fp
      in if neg then - v else v)"

text \<open>
  The optional group \<open>(?:\s+speed\s+(NUM))?\<close>.
\<close>

definition speed_opt :: "string \<Rightarrow> string option \<times> string" where
  "speed_opt s =
     (case do { r \<leftarrow> ws_plus s; r \<leftarrow> lit_ci ''speed'' r; r \<leftarrow> ws_plus r; num r } of
        Some (g, r) \<Rightarrow> (Some g, r)
      | None \<Rightarrow> (None, s))"

text \<open>
  The three \<open>re.match\<close> calls of \<open>_handle_command\<close>, each returning its groups:
  \<^verbatim>\<open>^(?:vel|velocity)\s+(NUM)\s+(NUM)\s*$\<close>,
  \<^verbatim>\<open>^(?:drive)\s+(forward|backward)\s+(NUM)(?:\s+speed\s+(NUM))?\s*$\<close> and
  \<^verbatim>\<open>^(?:rotate)\s+(clockwise|counterclockwise|anticlockwise)\s+(NUM)(?:\s+speed\s+(NUM))?\s*$\<close>.
\<close>

definition match_vel :: "string \<Rightarrow> (string \<times> string) option" where
  "match_vel text = do {
     r \<leftarrow> alt (lit_ci ''vel'' text \<bind> ws_plus) (lit_ci ''velocity'' text \<bind> ws_plus);
     (g1, r) \<leftarrow> num r;
     r \<leftarrow> ws_plus r;
     (g2, r) \<leftarrow> num r;
     if at_end r then Some (g1, g2) else None }"

definition match_drive :: "string \<Rightarrow> (string \<times> string \<times> string option) option" where
  "match_drive text = do {
     r \<leftarrow> lit_ci ''drive'' text;
     r \<leftarrow> ws_plus r;
     (g1, r) \<leftarrow> alt (group_ci ''forward'' r) (group_ci ''backward'' r);
     r \<leftarrow> ws_plus r;
     (g2, r) \<leftarrow> num r;
     (case speed_opt r of (g3, r) \<Rightarrow> if at_end r then Some (g1, g2, g3) else None) }"

definition match_rotate :: "string \<Rightarrow> (string \<times> string \<times> string option) option" where
  "match_rotate text = do {
     r \<leftarrow> lit_ci ''rotate'' text;
     r \<leftarrow> ws_plus r;
     (g1, r) \<leftarrow> alt (group_ci ''clockwise'' r)
                 (alt (group_ci ''counterclockwise'' r) (group_ci ''anticlockwise'' r));
     r \<leftarrow> ws_plus r;
     (g2, r) \<leftarrow> num r;
     (case speed_opt r of (g3, r) \<Rightarrow> if at_end r then Some (g1, g2, g3) else None) }"


subsection \<open>strip\_wrappers\<close>

definition startswith :: "string \<Rightarrow> string \<Rightarrow> bool" where
  "startswith t p \<longleftrightarrow> prefix p t"

definition endswith :: "string \<Rightarrow> string \<Rightarrow> bool" where
  "endswith t p \<longleftrightarrow> suffix p t"

text \<open>
  The test for surrounding quotes; \<open>0x22\<close> is the double and \<open>0x27\<close> the single quote.
\<close>

definition quoted :: "string \<Rightarrow> bool" where
  "quoted t \<longleftrightarrow> (startswith t [CHR 0x22] \<and> endswith t [CHR 0x22]) \<or>
               (startswith t [CHR 0x27] \<and> endswith t [CHR 0x27])"

text \<open>
  \<^verbatim>\<open>^\s*<\s*start\s*>\s*\<close> matched at the beginning of \<open>t\<close>: what follows the match.
\<close>

definition match_start_marker :: "string \<Rightarrow> string option" where
  "match_start_marker t = do {
     r \<leftarrow> lit_ci ''<'' (ws_star t);
     r \<leftarrow> lit_ci ''start'' (ws_star r);
     r \<leftarrow> lit_ci ''>'' (ws_star r);
     Some (ws_star r) }"

text \<open>
  \<^verbatim>\<open>\s*<\s*end\s*>\s*$\<close> searched in \<open>t\<close>: what precedes the match. A match ends
  at the end of \<open>t\<close>, so it is read backwards from there; the leftmost match is the one
  that takes all the whitespace before the \<open><\<close>.
\<close>

definition match_end_marker :: "string \<Rightarrow> string option" where
  "match_end_marker t = do {
     r \<leftarrow> lit_ci ''>'' (ws_star (rev t));
     r \<leftarrow> lit_ci ''dne'' (ws_star r);
     r \<leftarrow> lit_ci ''<'' (ws_star r);
     Some (rev (ws_star r)) }"

text \<open>
  \<^verbatim>\<open>re.sub(r'\s+', ' ', t)\<close>: every run of whitespace becomes one space.
\<close>

function collapse_ws :: "string \<Rightarrow> string" where
  "collapse_ws [] = []"
| "collapse_ws (c # cs) =
     (if isspace c then CHR '' '' # collapse_ws (dropWhile isspace cs)
      else c # collapse_ws cs)"
  by pat_completeness auto
termination
  by (relation "measure length") (auto simp: length_dropWhile_le less_Suc_eq_le)

text \<open>
  \<open>strip_wrappers\<close>; \<open>butlast (tl t)\<close> is the slice \<open>t[1:-1]\<close>.
\<close>

definition strip_wrappers :: "string \<Rightarrow> string" where
  "strip_wrappers text =
     (let t = strip text;
          t = (if quoted t then butlast (tl t) else t);
          t = (case match_start_marker t of Some r \<Rightarrow> r | None \<Rightarrow> t);
          t = (case match_end_marker t of Some r \<Rightarrow> r | None \<Rightarrow> t)
      in strip (collapse_ws t))"

text \<open>
  Texts in which every whitespace character is one space standing alone: the form
  \<open>strip_wrappers\<close> returns. Used to state and prove facts about it.
\<close>

fun spaced :: "string \<Rightarrow> bool" where
  "spaced [] = True"
| "spaced (c # cs) =
     ((isspace c \<longrightarrow> c = CHR '' '' \<and> (cs \<noteq> [] \<longrightarrow> \<not> isspace (hd cs))) \<and> spaced cs)"

subsection \<open>The node, its effects and the command handler\<close>

type_synonym addr = "string \<times> nat"

text \<open>
  The parameters of the node that the handler reads, and the answers of the two
  \<open>wait_for_server(timeout_sec=0.5)\<close> calls.
\<close>

record node =
  use_twist_stamped :: bool
  default_drive_speed :: real
  default_rot_speed :: real
  drive_action_name :: string
  rotate_action_name :: string
  drive_server_ready :: bool
  rotate_server_ready :: bool

datatype vel_msg = Twist real real | TwistStamped real real

datatype goal = DriveDistanceGoal real real | RotateAngleGoal real real

text \<open>
  The done-callbacks the node registers on futures: \<open>partial(self._drive_goal_sent,
  addr=addr)\<close> and its three siblings.
\<close>

datatype callback = DriveGoalSent addr | DriveResult addr
  | RotateGoalSent addr | RotateResult addr

text \<open>
  What the handler does to the outside, in order: a message published on the velocity
  topic, a call \<open>_reply(addr, text)\<close>, and a goal sent with a callback registered on its
  future. \<open>ReplyVel addr vx wz\<close> is the reply \<^verbatim>\<open>f'ok: vel {vx:.3f} {wz:.3f}'\<close>,
  whose two numbers are not rendered here.
\<close>

datatype effect =
    Publish vel_msg
  | Reply addr string
  | ReplyVel addr real real
  | SendGoalAsync goal callback

definition publish_velocity :: "node \<Rightarrow> real \<Rightarrow> real \<Rightarrow> effect list" where
  "publish_velocity self vx wz =
     (if use_twist_stamped self then [Publish (TwistStamped vx wz)] else [Publish (Twist vx wz)])"

definition send_drive_distance :: "node \<Rightarrow> real \<Rightarrow> real \<Rightarrow> addr \<Rightarrow> effect list" where
  "send_drive_distance self meters speed addr =
     (if \<not> drive_server_ready self
      then [Reply addr (''error: '' @ drive_action_name self @ '' server not ready'')]
      else [SendGoalAsync (DriveDistanceGoal meters speed) (DriveGoalSent addr)])"

definition send_rotate_angle :: "node \<Rightarrow> real \<Rightarrow> real \<Rightarrow> addr \<Rightarrow> effect list" where
  "send_rotate_angle self radians rot_speed addr =
     (if \<not> rotate_server_ready self
      then [Reply addr (''error: '' @ rotate_action_name self @ '' server not ready'')]
      else [SendGoalAsync (RotateAngleGoal radians rot_speed) (RotateGoalSent addr)])"

definition handle_command :: "node \<Rightarrow> string \<Rightarrow> addr \<Rightarrow> effect list" where
  "handle_command self text addr =
     (if text \<in> set [''stop'', ''e-stop'', ''estop'']
      then publish_velocity self 0 0 @ [Reply addr ''ok: stopped'']
      else case match_vel text of
        Some (g1, g2) \<Rightarrow>
          (let vx = clamp (py_float g1) (- 0.6) 0.6;
               wz = clamp (py_float g2) (- 2.0) 2.0
           in publish_velocity self vx wz @ [ReplyVel addr vx wz])
      | None \<Rightarrow>
       (case match_drive text of
          Some (g1, g2, g3) \<Rightarrow>
            (let direction = map lower g1;
                 meters = py_float g2;
                 speed = (case g3 of Some g \<Rightarrow> py_float g | None \<Rightarrow> default_drive_speed self);
                 meters = (if direction = ''forward'' then \<bar>meters\<bar> else - \<bar>meters\<bar>);
                 speed = clamp speed 0.05 0.5
             in send_drive_distance self meters speed addr)
        | None \<Rightarrow>
         (case match_rotate text of
            Some (g1, g2, g3) \<Rightarrow>
              (let sense = map lower g1;
                   degrees = py_float g2;
                   rot_speed = (case g3 of Some g \<Rightarrow> py_float g
                                | None \<Rightarrow> default_rot_speed self);
                   radians = \<bar>degrees\<bar> * (pi / 180);
                   radians = (if sense = ''clockwise'' then - radians else radians);
                   rot_speed = clamp rot_speed 0.1 1.5
               in send_rotate_angle self radians rot_speed addr)
          | None \<Rightarrow>
              [Reply addr (''error: could not parse command'' @ [newline] @ COMMAND_HELP)])))"

text \<open>
  The body of \<open>_udp_loop\<close> for one datagram from \<open>addr\<close>.
\<close>

definition udp_datagram :: "node \<Rightarrow> string \<Rightarrow> addr \<Rightarrow> effect list" where
  "udp_datagram self data addr =
     (let raw = decode_ignore (recvfrom 4096 data);
          text = strip_wrappers raw
      in if text = [] then [] else handle_command self text addr)"

subsection \<open>Goal callbacks\<close>

record goal_handle =
  accepted :: bool

text \<open>
  \<open>_drive_goal_sent\<close> and \<open>_rotate_goal_sent\<close> receive the result of the send-goal
  future, a goal handle or \<open>None\<close>; each returns its replies and the callback it
  registers on the result future, if it registers one. \<open>_drive_result\<close> and
  \<open>_rotate_result\<close> reply and register nothing.
\<close>

definition drive_goal_sent :: "goal_handle option \<Rightarrow> addr \<Rightarrow> effect list \<times> callback option" where
  "drive_goal_sent future_result addr =
     (case future_result of
        None \<Rightarrow> ([Reply addr ''error: drive goal rejected''], None)
      | Some goal_handle \<Rightarrow>
          if \<not> accepted goal_handle then ([Reply addr ''error: drive goal rejected''], None)
          else ([Reply addr ''ok: drive goal accepted''], Some (DriveResult addr)))"

definition drive_result :: "addr \<Rightarrow> effect list" where
  "drive_result addr = [Reply addr ''ok: drive done'']"

definition rotate_goal_sent :: "goal_handle option \<Rightarrow> addr \<Rightarrow> effect list \<times> callback option" where
  "rotate_goal_sent future_result addr =
     (case future_result of
        None \<Rightarrow> ([Reply addr ''error: rotate goal rejected''], None)
      | Some goal_handle \<Rightarrow>
          if \<not> accepted goal_handle then ([Reply addr ''error: rotate goal rejected''], None)
          else ([Reply addr ''ok: rotate goal accepted''], Some (RotateResult addr)))"

definition rotate_result :: "addr \<Rightarrow> effect list" where
  "rotate_result addr = [Reply addr ''ok: rotate done'']"

text \<open>
  The action client, as the node uses it: the future of a sent goal completes with the
  goal response, the result future of an accepted goal completes when the action is
  done, and a done-callback runs once, when the future it was registered on completes.
  \<open>deliver\<close> runs the callback waiting for an event, if there is one; \<open>run_callbacks\<close>
  does so for the events of one goal, in the order they arrive, and collects the effects.
\<close>

datatype event = GoalResponse "goal_handle option" | ResultReady

fun deliver :: "callback option \<Rightarrow> event \<Rightarrow> effect list \<times> callback option" where
  "deliver (Some (DriveGoalSent addr)) (GoalResponse r) = drive_goal_sent r addr"
| "deliver (Some (RotateGoalSent addr)) (GoalResponse r) = rotate_goal_sent r addr"
| "deliver (Some (DriveResult addr)) ResultReady = (drive_result addr, None)"
| "deliver (Some (RotateResult addr)) ResultReady = (rotate_result addr, None)"
| "deliver cb ev = ([], cb)"

fun run_callbacks :: "callback option \<Rightarrow> event list \<Rightarrow> effect list" where
  "run_callbacks cb [] = []"
| "run_callbacks cb (ev # evs) =
     (case deliver cb ev of (out, cb') \<Rightarrow> out @ run_callbacks cb' evs)"

text \<open>
  A node with the declared parameter defaults, whose action servers are ready.
\<close>

definition default_node :: node where
  "default_node = \<lparr>use_twist_stamped = True, default_drive_speed = 0.25,
     default_rot_speed = 0.8, drive_action_name = ''/drive_distance'',
     rotate_action_name = ''/rotate_angle'', drive_server_ready = True,
     rotate_server_ready = True\<rparr>"

section \<open>Evaluation and basic facts\<close>

lemmas rx_eval = rx_messages_def rx_init_def rx_packet_def rx_start_def rx_chunk_def
  recvfrom_def decode_ignore_def is_ascii_def strip_def lstrip_def rstrip_def isspace_def
  PACKET_SIZE_def

lemmas tx_eval = roundtrip_def tx_send_def encode_utf8_def ljust_def packet_loop.simps

lemmas re_eval = match_vel_def match_drive_def match_rotate_def alt_def lit_ci_def group_ci_def
  ws_plus_def ws_star_def lower_def isspace_def num_def isdigit_def at_end_def speed_opt_def
  py_float_def digits_val_def

lemmas sw_eval = strip_wrappers_def strip_def lstrip_def rstrip_def quoted_def startswith_def
  endswith_def match_start_marker_def match_end_marker_def lit_ci_def ws_star_def lower_def
  isspace_def suffix_to_prefix

lemma find_first:
  "find pat s = Some k \<Longrightarrow>
     k \<le> length s \<and> prefix pat (drop k s) \<and> (\<forall>j<k. \<not> prefix pat (drop j s))"
proof (induction s arbitrary: k)
  case Nil
  then show ?case by (simp split: if_splits)
next
  case (Cons c cs)
  show ?case
  proof (cases "prefix pat (c # cs)")
    case True
    with Cons.prems show ?thesis by simp
  next
    case False
    with Cons.prems obtain k' where k': "find pat cs = Some k'" "k = Suc k'"
      by auto
    from Cons.IH [OF k'(1)] have ih: "k' \<le> length cs" "prefix pat (drop k' cs)"
      "\<forall>j<k'. \<not> prefix pat (drop j cs)" by simp_all
    have "\<not> prefix pat (drop j (c # cs))" if "j < k" for j
    proof (cases j)
      case 0
      with False show ?thesis by simp
    next
      case (Suc j')
      with that k'(2) ih(3) show ?thesis by simp
    qed
    with ih k'(2) show ?thesis by simp
  qed
qed

lemma rx_start_Some:
  "find ''<START>'' c = Some k \<Longrightarrow>
     rx_start st c = (\<lparr>buffer = [], inside_message = True\<rparr>, drop (k + 7) c)"
  by (simp add: rx_start_def eval_nat_numeral)

lemma rx_start_None: "find ''<START>'' c = None \<Longrightarrow> rx_start st c = (st, c)"
  by (simp add: rx_start_def)

section \<open>Lemmas for the round trip\<close>

lemma find_None_iff: "find pat s = None \<longleftrightarrow> \<not> sublist pat s"
  by (induction s) (auto simp: sublist_Cons_right)

lemma contains_iff: "contains pat s \<longleftrightarrow> sublist pat s"
  by (simp add: contains_def find_None_iff)

lemma find_prefix0: "prefix pat s \<Longrightarrow> find pat s = Some 0"
  by (cases s) auto

lemma find_prefix: "find pat (pat @ s) = Some 0"
  by (simp add: find_prefix0)

lemma find_append_pat:
  assumes "c \<notin> set p" and "\<not> sublist (c # p) X"
  shows "find (c # p) (X @ c # p) = Some (length X)"
  using assms(2)
proof (induction X)
  case Nil
  then show ?case by simp
next
  case (Cons x xs)
  have ns: "\<not> sublist (c # p) xs"
    using Cons.prems by (simp add: sublist_Cons_right)
  have np: "\<not> prefix (c # p) (x # xs @ c # p)"
  proof
    assume pr: "prefix (c # p) (x # xs @ c # p)"
    then have px: "prefix p (xs @ c # p)" and "c = x" by auto
    show False
    proof (cases "length p \<le> length xs")
      case True
      with px have "prefix p xs"
        by (metis prefix_length_prefix prefixI append.right_neutral prefix_order.order_refl
              prefix_append)
      with \<open>c = x\<close> have "prefix (c # p) (x # xs)" by simp
      with Cons.prems show False by (simp add: sublist_Cons_right)
    next
      case False
      then have "length xs < length p" by simp
      from px obtain r where r: "xs @ c # p = p @ r" by (auto simp: prefix_def)
      from \<open>length xs < length p\<close> have "p ! length xs = (p @ r) ! length xs"
        by (simp add: nth_append)
      also have "\<dots> = (xs @ c # p) ! length xs" using r by simp
      also have "\<dots> = c" by simp
      finally have "c \<in> set p" using \<open>length xs < length p\<close> by (metis nth_mem)
      with assms(1) show False by simp
    qed
  qed
  from Cons.IH [OF ns] np show ?case by simp
qed


lemma not_sublist_append:
  assumes "\<not> sublist (c # p) X" and "\<not> sublist (c # p) B" and "B \<noteq> [] \<Longrightarrow> hd B \<notin> set p"
  shows "\<not> sublist (c # p) (X @ B)"
proof
  assume "sublist (c # p) (X @ B)"
  with assms(1,2) obtain xs1 xs2 where x: "c # p = xs1 @ xs2" "suffix xs1 X" "prefix xs2 B"
    by (auto simp: sublist_append)
  show False
  proof (cases xs1)
    case Nil
    with x assms(2) show False by auto
  next
    case (Cons a as)
    with x(1) have p: "p = as @ xs2" by simp
    show False
    proof (cases xs2)
      case Nil
      with x assms(1) show False by auto
    next
      case (Cons b bs)
      with x(3) have "B \<noteq> []" "hd B = b" by (auto simp: prefix_def)
      moreover from p Cons have "b \<in> set p" by simp
      ultimately show False using assms(3) by simp
    qed
  qed
qed

lemma dropWhile_replicate_append: "P x \<Longrightarrow> dropWhile P (replicate k x @ ys) = dropWhile P ys"
  by (induction k) simp_all

lemma strip_pad:
  assumes "s \<noteq> []" and "\<not> isspace (hd s)" and "\<not> isspace (last s)"
  shows "strip (s @ replicate k (CHR '' '')) = s"
proof -
  from assms(1,2) have l: "lstrip (s @ replicate k (CHR '' '')) = s @ replicate k (CHR '' '')"
    by (cases s) (simp_all add: lstrip_def)
  have sp: "isspace (CHR '' '')" by (simp add: isspace_def)
  have "dropWhile isspace (rev (s @ replicate k (CHR '' ''))) = dropWhile isspace (rev s)"
    using sp by (simp add: dropWhile_replicate_append)
  also from assms(1,3) have "\<dots> = rev s"
    by (cases "rev s") (simp_all add: last_rev [symmetric] del: last_rev)
  finally show ?thesis by (simp add: strip_def l rstrip_def)
qed

lemma strip_id:
  assumes "s \<noteq> []" and "\<not> isspace (hd s)" and "\<not> isspace (last s)"
  shows "strip s = s"
  using strip_pad [OF assms, of 0] by simp

lemma decode_ignore_ascii: "ascii s \<Longrightarrow> decode_ignore s = s"
  by (simp add: ascii_def decode_ignore_def list_all_iff)

lemma ascii_append [simp]: "ascii (a @ b) \<longleftrightarrow> ascii a \<and> ascii b"
  by (simp add: ascii_def)

lemma ascii_pad [simp]: "ascii (replicate k (CHR '' ''))"
  by (simp add: ascii_def is_ascii_def list_all_iff)

lemma ascii_take: "ascii s \<Longrightarrow> ascii (take k s)"
  by (auto simp: ascii_def list_all_iff dest: in_set_takeD)

lemma ascii_drop: "ascii s \<Longrightarrow> ascii (drop k s)"
  by (auto simp: ascii_def list_all_iff dest: in_set_dropD)

lemma ascii_Nil [simp]: "ascii []"
  by (simp add: ascii_def)

lemma ascii_Cons [simp]: "ascii (c # s) \<longleftrightarrow> is_ascii c \<and> ascii s"
  by (simp add: ascii_def)

lemma is_ascii_marker_chars [simp]:
  "is_ascii (CHR ''<'')" "is_ascii (CHR ''>'')" "is_ascii (CHR ''S'')" "is_ascii (CHR ''T'')"
  "is_ascii (CHR ''A'')" "is_ascii (CHR ''R'')" "is_ascii (CHR ''E'')" "is_ascii (CHR ''N'')"
  "is_ascii (CHR ''D'')"
  by (simp_all add: is_ascii_def)

lemma rx_chunk_clean:
  assumes "ascii s" and "length s + k \<le> n" and "s \<noteq> []"
    and "\<not> isspace (hd s)" and "\<not> isspace (last s)"
  shows "rx_chunk n (s @ replicate k (CHR '' '')) = s"
  using assms by (simp add: rx_chunk_def recvfrom_def decode_ignore_ascii strip_pad)


declare packet_loop.simps [simp del]

lemma packet_loop_done: "length bs \<le> i \<Longrightarrow> packet_loop n i bs = []"
  by (simp add: packet_loop.simps)

lemma packet_loop_step:
  "0 < n \<Longrightarrow> i < length bs \<Longrightarrow>
     packet_loop n i bs =
       (take n (drop i bs) @ replicate (n - length (take n (drop i bs))) (CHR '' ''))
         # packet_loop n (i + n) bs"
  by (subst packet_loop.simps) (simp add: Let_def ljust_def)

lemma no_start_in_end: "\<not> sublist ''<START>'' ''<END>''"
  using sublist_length_le [of "''<START>''" "''<END>''"] by auto

lemma nonspace_lt: "\<not> isspace (CHR ''<'')" and nonspace_gt: "\<not> isspace (CHR ''>'')"
  by (simp_all add: isspace_def)

text \<open>A packet that lies inside the message text.\<close>

lemma rx_packet_middle:
  assumes "ascii c" and "length c \<le> n" and "c \<noteq> []"
    and "\<not> isspace (hd c)" and "\<not> isspace (last c)"
    and "\<not> sublist ''<START>'' c" and "\<not> sublist ''<END>'' c"
  shows "rx_packet n \<lparr>buffer = b, inside_message = True\<rparr> c =
           (\<lparr>buffer = b @ c, inside_message = True\<rparr>, None)"
proof -
  from assms have c: "rx_chunk n c = c"
    using rx_chunk_clean [of c 0 n] by simp
  from assms(6,7) have "find ''<START>'' c = None" "find ''<END>'' c = None"
    by (simp_all add: find_None_iff)
  then show ?thesis
    by (simp add: rx_packet_def c rx_start_None)
qed

text \<open>The packet that holds the end of the text and the whole end marker.\<close>

lemma rx_packet_last:
  assumes "ascii X" and "length X + 5 + k \<le> n"
    and "X \<noteq> [] \<Longrightarrow> \<not> isspace (hd X)"
    and "\<not> sublist ''<START>'' X" and "\<not> sublist ''<END>'' X"
  shows "rx_packet n \<lparr>buffer = b, inside_message = True\<rparr>
           ((X @ ''<END>'') @ replicate k (CHR '' '')) = (rx_init, Some (b @ X))"
proof -
  have hd: "\<not> isspace (hd (X @ ''<END>''))"
    using assms(3) nonspace_lt by (cases X) simp_all
  have "rx_chunk n ((X @ ''<END>'') @ replicate k (CHR '' '')) = X @ ''<END>''"
    by (rule rx_chunk_clean) (use assms(1,2) hd nonspace_gt in simp_all)
  moreover have "find ''<START>'' (X @ ''<END>'') = None"
    unfolding find_None_iff
    by (rule not_sublist_append) (use assms(4) no_start_in_end in simp_all)
  moreover have "find ''<END>'' (X @ ''<END>'') = Some (length X)"
    by (rule find_append_pat) (use assms(5) in simp_all)
  ultimately show ?thesis
    by (simp add: rx_packet_def rx_start_None rx_init_def)
qed

text \<open>The first packet, when it holds the whole wrapped message.\<close>

lemma rx_packet_single:
  assumes "ascii X" and "7 + length X + 5 + k \<le> n" and "\<not> sublist ''<END>'' X"
  shows "rx_packet n st ((''<START>'' @ X @ ''<END>'') @ replicate k (CHR '' '')) =
           (rx_init, Some X)"
proof -
  have "rx_chunk n ((''<START>'' @ X @ ''<END>'') @ replicate k (CHR '' '')) =
          ''<START>'' @ X @ ''<END>''"
    by (rule rx_chunk_clean) (use assms(1,2) nonspace_lt nonspace_gt in simp_all)
  moreover have "find ''<START>'' (''<START>'' @ X @ ''<END>'') = Some 0"
    by (rule find_prefix)
  moreover have "find ''<END>'' (X @ ''<END>'') = Some (length X)"
    by (rule find_append_pat) (use assms(3) in simp_all)
  ultimately show ?thesis
    by (simp add: rx_packet_def rx_start_Some rx_init_def)
qed

text \<open>The first packet, when the message goes on after it.\<close>

lemma rx_packet_first:
  assumes "ascii c" and "7 + length c \<le> n" and "c \<noteq> [] \<Longrightarrow> \<not> isspace (last c)"
    and "\<not> sublist ''<END>'' c"
  shows "rx_packet n st (''<START>'' @ c) = (\<lparr>buffer = c, inside_message = True\<rparr>, None)"
proof -
  have l: "\<not> isspace (last (''<START>'' @ c))"
    using assms(3) nonspace_gt by (cases "c = []") simp_all
  have "rx_chunk n (''<START>'' @ c) = ''<START>'' @ c"
    using rx_chunk_clean [of "''<START>'' @ c" 0 n] assms(1,2) l nonspace_lt by simp
  moreover have "find ''<START>'' (''<START>'' @ c) = Some 0"
    by (rule find_prefix)
  moreover have "find ''<END>'' c = None"
    using assms(4) by (simp add: find_None_iff)
  ultimately show ?thesis
    by (simp add: rx_packet_def rx_start_Some)
qed

lemma boundary_le:
  fixes n j e :: nat
  assumes "n dvd j" and "j < e + 5" and "e mod n + 5 \<le> n"
  shows "j \<le> e"
proof -
  from assms(1) obtain k where k: "j = n * k" by (auto simp: dvd_def)
  have e: "e = n * (e div n) + e mod n" by simp
  have "n * k < n * (e div n) + n"
    using assms(2,3) k e by linarith
  then have "n * k < n * (e div n + 1)" by simp
  then have "k < e div n + 1" by (simp only: mult_less_cancel1)
  then have "k \<le> e div n" by simp
  then have "n * k \<le> n * (e div n)" by simp
  with e k show ?thesis by linarith
qed


lemma wrapped_nth_gen:
  "length P = a \<Longrightarrow> a \<le> i \<Longrightarrow> i < a + length M \<Longrightarrow> (P @ M @ E) ! i = M ! (i - a)"
  by (auto simp: nth_append)

lemma wrapped_nth:
  "7 \<le> i \<Longrightarrow> i < 7 + length M \<Longrightarrow> (''<START>'' @ M @ ''<END>'') ! i = M ! (i - 7)"
  by (rule wrapped_nth_gen) simp_all

lemma wrapped_take_gen:
  "length P = a \<Longrightarrow> a \<le> n \<Longrightarrow> n \<le> a + length M \<Longrightarrow>
     take n (P @ M @ E) = P @ take (n - a) M"
  by simp

lemma wrapped_drop_gen:
  "length P = a \<Longrightarrow> a \<le> i \<Longrightarrow> drop i (P @ M @ E) = drop (i - a) M @ drop (i - a - length M) E"
  by simp

lemma wrapped_drop:
  "7 \<le> i \<Longrightarrow> i \<le> 7 + length M \<Longrightarrow>
     drop i (''<START>'' @ M @ ''<END>'') = drop (i - 7) M @ ''<END>''"
  using wrapped_drop_gen [of "''<START>''" 7 i M "''<END>''"] by simp

lemma sublist_trans:
  assumes "sublist a b" and "sublist b c"
  shows "sublist a (c :: 'a list)"
proof -
  from assms obtain p1 s1 p2 s2 where "b = p1 @ a @ s1" "c = p2 @ b @ s2"
    by (auto simp: sublist_def)
  then have "c = (p2 @ p1) @ a @ (s1 @ s2)" by simp
  then show ?thesis unfolding sublist_def by blast
qed

lemma sublist_take_drop: "\<not> sublist p M \<Longrightarrow> \<not> sublist p (take a (drop b M))"
  by (meson sublist_drop sublist_trans sublist_take)

lemma sublist_drop': "\<not> sublist p M \<Longrightarrow> \<not> sublist p (drop b M)"
  by (meson sublist_drop sublist_trans)

lemma rx_rest:
  fixes M :: string and n :: nat
  defines "W \<equiv> ''<START>'' @ M @ ''<END>''"
  assumes asc: "ascii M"
    and nS: "\<not> sublist ''<START>'' M" and nE: "\<not> sublist ''<END>'' M"
    and n0: "0 < n"
    and ns: "(7 + length M) mod n + 5 \<le> n"
    and bc: "\<forall>j. 0 < j \<and> j < length W \<and> n dvd j \<longrightarrow>
               \<not> isspace (W ! j) \<and> \<not> isspace (W ! (j - 1))"
  shows "n dvd i \<Longrightarrow> 7 \<le> i \<Longrightarrow> i \<le> 7 + length M \<Longrightarrow>
    rx_loop n \<lparr>buffer = take (i - 7) M, inside_message = True\<rparr> (packet_loop n i W) =
      (rx_init, [M])"
proof (induction "length W - i" arbitrary: i rule: less_induct)
  case less
  note i = less.prems
  have lW: "length W = 12 + length M" by (simp add: W_def)
  define R where "R = drop (i - 7) M"
  have dW: "drop i W = R @ ''<END>''"
    unfolding W_def R_def by (rule wrapped_drop) (use i in simp_all)
  have lR: "length R = 7 + length M - i" using i by (simp add: R_def)
  have hdR: "\<not> isspace (hd R)" if "R \<noteq> []"
  proof -
    from that lR have lt: "i < 7 + length M" by (cases "i < 7 + length M") auto
    with i bc lW have "\<not> isspace (W ! i)" by simp
    moreover have "W ! i = M ! (i - 7)"
      unfolding W_def by (rule wrapped_nth) (use i lt in simp_all)
    moreover have "hd R = M ! (i - 7)"
      using that lt i by (simp add: R_def hd_drop_conv_nth)
    ultimately show ?thesis by simp
  qed
  have step: "packet_loop n i W =
      (take n (drop i W) @ replicate (n - length (take n (drop i W))) (CHR '' ''))
        # packet_loop n (i + n) W"
    by (rule packet_loop_step) (use n0 i lW in simp_all)
  show ?case
  proof (cases "length W \<le> i + n")
    case True
    then have tk: "take n (drop i W) = R @ ''<END>''"
      using dW lR lW i by simp
    have "rx_packet n \<lparr>buffer = take (i - 7) M, inside_message = True\<rparr>
           ((R @ ''<END>'') @ replicate (n - length (R @ ''<END>'')) (CHR '' '')) =
           (rx_init, Some (take (i - 7) M @ R))"
    proof (rule rx_packet_last)
      show "ascii R" using asc by (simp add: R_def ascii_drop)
      show "length R + 5 + (n - length (R @ ''<END>'')) \<le> n"
        using True lR lW i by simp
      show "\<not> isspace (hd R)" if "R \<noteq> []" using hdR that .
      show "\<not> sublist ''<START>'' R" using nS by (simp add: R_def sublist_drop')
      show "\<not> sublist ''<END>'' R" using nE by (simp add: R_def sublist_drop')
    qed
    moreover have "take (i - 7) M @ R = M" by (simp add: R_def)
    moreover have "packet_loop n (i + n) W = []"
      by (rule packet_loop_done) (use True in simp_all)
    ultimately show ?thesis
      unfolding step tk by simp
  next
    case False
    then have lt: "i + n < length W" by simp
    have dv: "n dvd i + n" using i by simp
    have le: "i + n \<le> 7 + length M"
      by (rule boundary_le [of n]) (use dv lt ns lW in simp_all)
    define c where "c = take n R"
    have lc: "length c = n" using le lR by (simp add: c_def)
    have tk: "take n (drop i W) = c"
      using dW le lR by (simp add: c_def)
    have cne: "c \<noteq> []" using lc n0 by auto
    have Rne: "R \<noteq> []" using cne by (auto simp: c_def)
    have hdc: "\<not> isspace (hd c)"
      using hdR [OF Rne] Rne n0 by (cases R) (simp_all add: c_def take_Suc)
    have lastc: "\<not> isspace (last c)"
    proof -
      from bc dv lt n0 i have "\<not> isspace (W ! (i + n - 1))" by simp
      moreover have "W ! (i + n - 1) = M ! (i + n - 1 - 7)"
        unfolding W_def by (rule wrapped_nth) (use i le n0 in simp_all)
      moreover have "last c = c ! (n - 1)"
        using cne lc by (simp add: last_conv_nth)
      moreover have "c ! (n - 1) = M ! (i - 7 + (n - 1))"
        using n0 le i by (simp add: c_def R_def)
      moreover have "i - 7 + (n - 1) = i + n - 1 - 7" using i n0 by simp
      ultimately show ?thesis by simp
    qed
    have "rx_packet n \<lparr>buffer = take (i - 7) M, inside_message = True\<rparr> c =
            (\<lparr>buffer = take (i - 7) M @ c, inside_message = True\<rparr>, None)"
    proof (rule rx_packet_middle)
      show "ascii c" using asc by (simp add: c_def R_def ascii_take ascii_drop)
      show "length c \<le> n" using lc by simp
      show "c \<noteq> []" by (rule cne)
      show "\<not> isspace (hd c)" by (rule hdc)
      show "\<not> isspace (last c)" by (rule lastc)
      show "\<not> sublist ''<START>'' c" using nS by (simp add: c_def R_def sublist_take_drop)
      show "\<not> sublist ''<END>'' c" using nE by (simp add: c_def R_def sublist_take_drop)
    qed
    moreover have "take (i - 7) M @ c = take (i + n - 7) M"
    proof -
      have "i + n - 7 = (i - 7) + n" using i by simp
      then show ?thesis by (simp add: c_def R_def take_add)
    qed
    moreover have "rx_loop n \<lparr>buffer = take (i + n - 7) M, inside_message = True\<rparr>
                     (packet_loop n (i + n) W) = (rx_init, [M])"
      by (rule less.hyps) (use lt n0 i le dv in simp_all)
    ultimately show ?thesis
      unfolding step tk using lc by simp
  qed
qed


section \<open>The receiver's start-marker handling\<close>

text \<open>
  C6. While a message is being collected (\<open>inside_message\<close> holds, the buffer holds
  \<open>b\<close>), an ASCII datagram whose chunk contains the start marker at index \<open>k\<close> is
  handled without looking at \<open>b\<close>: the outcome is the one computed from the content
  after the marker alone, so the unfinished buffer is dropped and nothing is reported
  for it. In particular the datagrams \<open><START>AB\<close> and \<open><START>CD<END>\<close> produce the
  single message \<open>CD\<close>.
\<close>

theorem rx_start_marker_discards_buffer:
  "(ascii d \<and> find ''<START>'' (rx_chunk n d) = Some k \<longrightarrow>
      rx_packet n \<lparr>buffer = b, inside_message = True\<rparr> d =
        (let rest = drop (k + 7) (rx_chunk n d)
         in case find ''<END>'' rest of
              Some e \<Rightarrow> (\<lparr>buffer = [], inside_message = False\<rparr>, Some (take e rest))
            | None \<Rightarrow> (\<lparr>buffer = rest, inside_message = True\<rparr>, None)))
   \<and> rx_messages PACKET_SIZE [''<START>AB'', ''<START>CD<END>''] = [''CD'']"
proof
  show "ascii d \<and> find ''<START>'' (rx_chunk n d) = Some k \<longrightarrow>
      rx_packet n \<lparr>buffer = b, inside_message = True\<rparr> d =
        (let rest = drop (k + 7) (rx_chunk n d)
         in case find ''<END>'' rest of
              Some e \<Rightarrow> (\<lparr>buffer = [], inside_message = False\<rparr>, Some (take e rest))
            | None \<Rightarrow> (\<lparr>buffer = rest, inside_message = True\<rparr>, None))"
    by (simp add: rx_packet_def rx_start_Some Let_def split: option.splits)
  show "rx_messages PACKET_SIZE [''<START>AB'', ''<START>CD<END>''] = [''CD'']"
    by (simp add: rx_eval)
qed

theorem rx_start_marker_discards_buffer_witness:
  "ascii ''<START>CD<END>'' \<and>
   find ''<START>'' (rx_chunk 800 ''<START>CD<END>'') = Some 0 \<and>
   rx_packet 800 \<lparr>buffer = ''AB'', inside_message = True\<rparr> ''<START>CD<END>'' =
     (\<lparr>buffer = [], inside_message = False\<rparr>, Some ''CD'')"
proof -
  have a: "ascii ''<START>CD<END>''" by (simp add: is_ascii_def)
  have h: "find ''<START>'' (rx_chunk 800 ''<START>CD<END>'') = Some 0"
    by (simp add: rx_eval)
  have c: "rx_chunk 800 ''<START>CD<END>'' = ''<START>CD<END>''"
    by (simp add: rx_eval)
  from rx_start_marker_discards_buffer [of "''<START>CD<END>''" 800 0 "''AB''"] a h
  have "rx_packet 800 \<lparr>buffer = ''AB'', inside_message = True\<rparr> ''<START>CD<END>'' =
        (let rest = drop (0 + 7) (rx_chunk 800 ''<START>CD<END>'')
         in case find ''<END>'' rest of
              Some e \<Rightarrow> (\<lparr>buffer = [], inside_message = False\<rparr>, Some (take e rest))
            | None \<Rightarrow> (\<lparr>buffer = rest, inside_message = True\<rparr>, None))"
    by blast
  then show ?thesis using a h by (simp add: c)
qed

text \<open>
  C10. The start marker is looked for once in each datagram, and \<open>find\<close> returns its
  first occurrence: for an ASCII datagram whose chunk holds a marker, no earlier index
  starts a marker, and everything after that first marker is handled as content,
  whatever the state was before and whether or not other start markers follow in it.
  Without an end marker the rest becomes the buffer as it is; with one, the rest up to
  it is the message. So the single datagram \<open><START>A<START>B\<close> leaves the buffer
  \<open>A<START>B\<close>, and \<open><START>A<START>B<END>\<close> completes the message \<open>A<START>B\<close>.
\<close>

theorem rx_start_marker_first_occurrence_only:
  "(ascii d \<and> find ''<START>'' (rx_chunk n d) = Some k \<longrightarrow>
      (\<forall>j<k. \<not> prefix ''<START>'' (drop j (rx_chunk n d))) \<and>
      rx_packet n st d =
        (let rest = drop (k + 7) (rx_chunk n d)
         in case find ''<END>'' rest of
              Some e \<Rightarrow> (\<lparr>buffer = [], inside_message = False\<rparr>, Some (take e rest))
            | None \<Rightarrow> (\<lparr>buffer = rest, inside_message = True\<rparr>, None)))
   \<and> rx_loop PACKET_SIZE rx_init [''<START>A<START>B''] =
       (\<lparr>buffer = ''A<START>B'', inside_message = True\<rparr>, [])
   \<and> rx_loop PACKET_SIZE rx_init [''<START>A<START>B<END>''] =
       (\<lparr>buffer = [], inside_message = False\<rparr>, [''A<START>B''])"
proof (intro conjI impI)
  assume a: "ascii d \<and> find ''<START>'' (rx_chunk n d) = Some k"
  from a find_first [of "''<START>''" "rx_chunk n d" k]
  show "\<forall>j<k. \<not> prefix ''<START>'' (drop j (rx_chunk n d))" by blast
  from a show "rx_packet n st d =
        (let rest = drop (k + 7) (rx_chunk n d)
         in case find ''<END>'' rest of
              Some e \<Rightarrow> (\<lparr>buffer = [], inside_message = False\<rparr>, Some (take e rest))
            | None \<Rightarrow> (\<lparr>buffer = rest, inside_message = True\<rparr>, None))"
    by (simp add: rx_packet_def rx_start_Some Let_def split: option.splits)
next
  show "rx_loop PACKET_SIZE rx_init [''<START>A<START>B''] =
       (\<lparr>buffer = ''A<START>B'', inside_message = True\<rparr>, [])"
    by (simp add: rx_eval)
next
  show "rx_loop PACKET_SIZE rx_init [''<START>A<START>B<END>''] =
       (\<lparr>buffer = [], inside_message = False\<rparr>, [''A<START>B''])"
    by (simp add: rx_eval)
qed

theorem rx_start_marker_first_occurrence_only_witness:
  "ascii ''xy<START>A<START>B'' \<and>
   find ''<START>'' (rx_chunk 800 ''xy<START>A<START>B'') = Some 2 \<and>
   rx_packet 800 \<lparr>buffer = ''old'', inside_message = True\<rparr> ''xy<START>A<START>B'' =
     (\<lparr>buffer = ''A<START>B'', inside_message = True\<rparr>, None)"
proof -
  have a: "ascii ''xy<START>A<START>B''" by (simp add: is_ascii_def)
  have c: "rx_chunk 800 ''xy<START>A<START>B'' = ''xy<START>A<START>B''"
    by (simp add: rx_eval)
  have h: "find ''<START>'' (rx_chunk 800 ''xy<START>A<START>B'') = Some 2"
    by (simp add: c)
  from rx_start_marker_first_occurrence_only
         [of "''xy<START>A<START>B''" 800 2 "\<lparr>buffer = ''old'', inside_message = True\<rparr>"] a h
  have "rx_packet 800 \<lparr>buffer = ''old'', inside_message = True\<rparr> ''xy<START>A<START>B'' =
        (let rest = drop (2 + 7) (rx_chunk 800 ''xy<START>A<START>B'')
         in case find ''<END>'' rest of
              Some e \<Rightarrow> (\<lparr>buffer = [], inside_message = False\<rparr>, Some (take e rest))
            | None \<Rightarrow> (\<lparr>buffer = rest, inside_message = True\<rparr>, None))"
    by blast
  then show ?thesis using a h by (simp add: c)
qed

section \<open>The round trip through sender and receiver\<close>

text \<open>
  C1, as amended. The receiver looks for each marker inside one chunk at a time and the
  markers travel in the message text itself, so the round trip returns \<open>M\<close> for the
  messages and packet sizes where this suffices: \<open>M\<close> is ASCII and contains neither
  marker, a packet has room for the start marker (\<open>7 \<le> n\<close>), and the end marker does
  not straddle two packets (the text before it ends at offset \<open>(7 + length M) mod n\<close> of
  its packet, and five more bytes fit). The last hypothesis keeps the stripping of a
  chunk apart: it asks that no packet boundary inside the wrapped message has a
  whitespace character on either side, and says nothing of the other messages.
  Then the packets of the sender, received in order, yield exactly \<open>[M]\<close>.
\<close>

theorem framer_roundtrip:
  assumes asc: "ascii M" and n7: "7 \<le> n"
    and nS: "\<not> contains ''<START>'' M" and nE: "\<not> contains ''<END>'' M"
    and ns: "(7 + length M) mod n + 5 \<le> n"
    and bc: "\<forall>j. 0 < j \<and> j < length (''<START>'' @ M @ ''<END>'') \<and> n dvd j \<longrightarrow>
               \<not> isspace ((''<START>'' @ M @ ''<END>'') ! j) \<and>
               \<not> isspace ((''<START>'' @ M @ ''<END>'') ! (j - 1))"
  shows "roundtrip n M = Inr [M]"
proof -
  define W where "W = ''<START>'' @ M @ ''<END>''"
  have lW: "length W = 12 + length M" by (simp add: W_def)
  have n0: "0 < n" using n7 by simp
  have sS: "\<not> sublist ''<START>'' M" and sE: "\<not> sublist ''<END>'' M"
    using nS nE by (simp_all add: contains_iff)
  have tx: "tx_send n M = Inr (packet_loop n 0 W)"
    using n0 by (simp add: tx_send_def encode_utf8_def W_def)
  have step: "packet_loop n 0 W =
      (take n W @ replicate (n - length (take n W)) (CHR '' '')) # packet_loop n n W"
    using packet_loop_step [of n 0 W] n0 lW by simp
  have "rx_loop n rx_init (packet_loop n 0 W) = (rx_init, [M])"
  proof (cases "length W \<le> n")
    case True
    have "rx_packet n rx_init
            ((''<START>'' @ M @ ''<END>'') @ replicate (n - length W) (CHR '' '')) =
          (rx_init, Some M)"
      by (rule rx_packet_single) (use asc sE True lW in simp_all)
    moreover have "packet_loop n n W = []"
      by (rule packet_loop_done) (rule True)
    moreover have "take n W = W" using True by simp
    ultimately show ?thesis
      unfolding step by (simp add: W_def)
  next
    case False
    have dv: "n dvd n" by simp
    have le: "n \<le> 7 + length M"
      by (rule boundary_le [of n]) (use False ns lW in simp_all)
    define c where "c = take (n - 7) M"
    have tk: "take n W = ''<START>'' @ c"
      unfolding W_def c_def by (rule wrapped_take_gen) (use n7 le in simp_all)
    have p0: "take n W @ replicate (n - length (take n W)) (CHR '' '') = take n W"
      using False by simp
    have lastc: "\<not> isspace (last c)" if "c \<noteq> []"
    proof -
      from that have n8: "8 \<le> n" by (cases "n = 7") (use n7 in \<open>auto simp: c_def\<close>)
      from bc False n0 have "\<not> isspace (W ! (n - 1))" by (simp add: W_def)
      moreover have "W ! (n - 1) = M ! (n - 1 - 7)"
        unfolding W_def by (rule wrapped_nth) (use n8 le in simp_all)
      moreover have "last c = c ! (length c - 1)"
        using that by (simp add: last_conv_nth)
      moreover have "length c = n - 7" using le by (simp add: c_def)
      moreover have "c ! (n - 7 - 1) = M ! (n - 7 - 1)"
        using n8 by (simp add: c_def)
      moreover have "n - 7 - 1 = n - 1 - 7" by simp
      ultimately show ?thesis by simp
    qed
    have "rx_packet n rx_init (''<START>'' @ c) =
            (\<lparr>buffer = c, inside_message = True\<rparr>, None)"
    proof (rule rx_packet_first)
      show "ascii c" using asc by (simp add: c_def ascii_take)
      show "7 + length c \<le> n" using n7 by (simp add: c_def)
      show "\<not> isspace (last c)" if "c \<noteq> []" using lastc that .
      show "\<not> sublist ''<END>'' c"
        using sE sublist_take_drop [of "''<END>''" M "n - 7" 0] by (simp add: c_def)
    qed
    moreover have "rx_loop n \<lparr>buffer = take (n - 7) M, inside_message = True\<rparr>
                     (packet_loop n n W) = (rx_init, [M])"
      unfolding W_def
      by (rule rx_rest) (use asc sS sE n0 ns bc n7 le in simp_all)
    moreover have "packet_loop n 0 W = (''<START>'' @ c) # packet_loop n n W"
      by (subst step, subst p0, subst tk, rule refl)
    ultimately show ?thesis
      by (simp add: c_def)
  qed
  then show ?thesis
    by (simp add: roundtrip_def tx rx_messages_def)
qed


theorem framer_roundtrip_witness:
  "ascii ''drive forward 2'' \<and> (7::nat) \<le> 11 \<and>
   \<not> contains ''<START>'' ''drive forward 2'' \<and> \<not> contains ''<END>'' ''drive forward 2'' \<and>
   tx_send 11 ''drive forward 2'' = Inr [''<START>driv'', ''e forward 2'', ''<END>      ''] \<and>
   roundtrip 11 ''drive forward 2'' = Inr [''drive forward 2'']"
proof -
  have a: "ascii ''drive forward 2''" by (simp add: is_ascii_def)
  have s: "\<not> contains ''<START>'' ''drive forward 2''"
    and e: "\<not> contains ''<END>'' ''drive forward 2''"
    by (simp_all add: contains_def)
  have m: "(7 + length ''drive forward 2'') mod 11 + 5 \<le> (11::nat)" by simp
  have b: "\<forall>j. 0 < j \<and> j < length (''<START>'' @ ''drive forward 2'' @ ''<END>'') \<and> 11 dvd j \<longrightarrow>
             \<not> isspace ((''<START>'' @ ''drive forward 2'' @ ''<END>'') ! j) \<and>
             \<not> isspace ((''<START>'' @ ''drive forward 2'' @ ''<END>'') ! (j - 1))"
  proof (intro allI impI)
    fix j :: nat
    assume h: "0 < j \<and> j < length (''<START>'' @ ''drive forward 2'' @ ''<END>'') \<and> 11 dvd j"
    then have "j < 27" by simp
    with h have "j = 11 \<or> j = 22" by presburger
    then show "\<not> isspace ((''<START>'' @ ''drive forward 2'' @ ''<END>'') ! j) \<and>
             \<not> isspace ((''<START>'' @ ''drive forward 2'' @ ''<END>'') ! (j - 1))"
      by (auto simp: isspace_def)
  qed
  have t: "tx_send 11 ''drive forward 2'' =
             Inr [''<START>driv'', ''e forward 2'', ''<END>      '']"
    by (simp add: tx_eval eval_nat_numeral)
  from framer_roundtrip [OF a _ s e m b] a s e t show ?thesis by simp
qed

text \<open>
  The claim as stated fails: with a packet size of 3 the start marker is cut into pieces
  and no message is ever completed; with a packet size of 16 the end marker of
  \<open>hello\<close> straddles the two packets and the message is never completed; and a message
  that contains the end marker is cut short at it.
\<close>

theorem framer_roundtrip_counterexample:
  "roundtrip 3 ''hi'' = Inr [] \<and> roundtrip 3 ''hi'' \<noteq> Inr [''hi''] \<and>
   roundtrip 16 ''hello'' = Inr [] \<and> roundtrip 16 ''hello'' \<noteq> Inr [''hello''] \<and>
   roundtrip 32 ''a<END>b'' = Inr [''a''] \<and> roundtrip 32 ''a<END>b'' \<noteq> Inr [''a<END>b'']"
  by (simp add: tx_eval rx_eval dropWhile_replicate_append)

text \<open>
  C2. The receiver calls \<open>strip()\<close>, which removes whitespace at both ends of the
  chunk, not only the padding at its end. A packet that begins with a space, as the
  second packet of a message does when a packet boundary falls just before a space
  (here with the packet size 8 and the message \<open>a b\<close>), loses that space, and the
  reassembled message is \<open>ab\<close>.
\<close>

theorem rx_strip_removes_leading_whitespace:
  "rx_chunk PACKET_SIZE ('' b<END>'' @ replicate 793 (CHR '' '')) = ''b<END>'' \<and>
   rx_packet PACKET_SIZE \<lparr>buffer = ''a'', inside_message = True\<rparr>
     ('' b<END>'' @ replicate 793 (CHR '' '')) = (rx_init, Some ''ab'') \<and>
   tx_send 8 ''a b'' = Inr [''<START>a'', '' b<END> ''] \<and>
   roundtrip 8 ''a b'' = Inr [''ab'']"
  by (simp add: tx_eval rx_eval dropWhile_replicate_append)


section \<open>Lemmas for the command bridge\<close>

lemma strip_wrappers_steps:
  assumes "strip text = t0"
    and "(if quoted t0 then butlast (tl t0) else t0) = t1"
    and "(case match_start_marker t1 of Some r \<Rightarrow> r | None \<Rightarrow> t1) = t2"
    and "(case match_end_marker t2 of Some r \<Rightarrow> r | None \<Rightarrow> t2) = t3"
    and "strip (collapse_ws t3) = t4"
  shows "strip_wrappers text = t4"
  using assms by (simp add: strip_wrappers_def)

lemma handle_command_unparsed:
  assumes "text \<notin> set [''stop'', ''e-stop'', ''estop'']"
    and "match_vel text = None" and "match_drive text = None" and "match_rotate text = None"
  shows "handle_command self text addr =
           [Reply addr (''error: could not parse command'' @ [newline] @ COMMAND_HELP)]"
  using assms by (simp add: handle_command_def)

lemma match_vel_prefix:
  "match_vel text = Some x \<Longrightarrow> map lower (take (length ''vel'') text) = ''vel''"
proof -
  assume m: "match_vel text = Some x"
  then have "lit_ci ''vel'' text \<noteq> None \<or> lit_ci ''velocity'' text \<noteq> None"
    by (auto simp: match_vel_def alt_def split: bind_splits option.splits)
  then show ?thesis
  proof
    assume "lit_ci ''vel'' text \<noteq> None"
    then show ?thesis by (simp add: lit_ci_def split: if_splits)
  next
    assume "lit_ci ''velocity'' text \<noteq> None"
    then have v: "map lower (take (length ''velocity'') text) = ''velocity''"
      by (simp add: lit_ci_def split: if_splits)
    have "take (length ''vel'') text = take (length ''vel'') (take (length ''velocity'') text)"
      by simp
    then have "map lower (take (length ''vel'') text) =
                 take (length ''vel'') (map lower (take (length ''velocity'') text))"
      by (simp only: take_map)
    also have "\<dots> = ''vel''" by (simp only: v) simp
    finally show ?thesis .
  qed
qed

lemma vel_not_stop:
  "map lower (take (length ''vel'') text) = ''vel'' \<Longrightarrow> text \<notin> set [''stop'', ''e-stop'', ''estop'']"
  by (auto simp: lower_def)

lemma handle_command_vel:
  assumes "match_vel text = Some (g1, g2)"
  shows "handle_command self text addr =
           publish_velocity self (clamp (py_float g1) (- 0.6) 0.6) (clamp (py_float g2) (- 2.0) 2.0)
             @ [ReplyVel addr (clamp (py_float g1) (- 0.6) 0.6) (clamp (py_float g2) (- 2.0) 2.0)]"
proof -
  from assms have "map lower (take (length ''vel'') text) = ''vel''" by (rule match_vel_prefix)
  then have "text \<notin> set [''stop'', ''e-stop'', ''estop'']" by (rule vel_not_stop)
  with assms show ?thesis by (simp add: handle_command_def Let_def)
qed

lemma match_drive_prefix:
  "match_drive text = Some x \<Longrightarrow> map lower (take (length ''drive'') text) = ''drive''"
  by (auto simp: match_drive_def lit_ci_def split: if_splits bind_splits)

lemma drive_not_stop:
  "map lower (take (length ''drive'') text) = ''drive'' \<Longrightarrow> text \<notin> set [''stop'', ''e-stop'', ''estop'']"
  by (auto simp: lower_def)

lemma drive_not_vel:
  "map lower (take (length ''drive'') text) = ''drive'' \<Longrightarrow> match_vel text = None"
  by (cases "text") (auto simp: match_vel_def lit_ci_def alt_def)

lemma match_drive_direction:
  "match_drive text = Some (g1, g2, g3) \<Longrightarrow>
     map lower g1 = ''forward'' \<or> map lower g1 = ''backward''"
  by (auto simp: match_drive_def alt_def group_ci_def
      split: bind_splits if_splits option.splits prod.splits)

lemma handle_command_drive:
  assumes "match_drive text = Some (g1, g2, g3)"
  shows "handle_command self text addr =
           send_drive_distance self
             (if map lower g1 = ''forward'' then \<bar>py_float g2\<bar> else - \<bar>py_float g2\<bar>)
             (clamp (case g3 of Some g \<Rightarrow> py_float g | None \<Rightarrow> default_drive_speed self) 0.05 0.5)
             addr"
proof -
  from assms have p: "map lower (take (length ''drive'') text) = ''drive''" by (rule match_drive_prefix)
  from p have "text \<notin> set [''stop'', ''e-stop'', ''estop'']" by (rule drive_not_stop)
  moreover from p have "match_vel text = None" by (rule drive_not_vel)
  ultimately show ?thesis using assms by (simp add: handle_command_def Let_def)
qed

lemma collapse_ws_Nil_iff: "collapse_ws s = [] \<longleftrightarrow> s = []"
  by (cases s) simp_all

lemma hd_collapse_ws: "s \<noteq> [] \<Longrightarrow> isspace (hd (collapse_ws s)) = isspace (hd s)"
  by (cases s) (simp_all add: isspace_def)

lemma spaced_collapse_ws: "spaced (collapse_ws s)"
proof (induction s rule: collapse_ws.induct)
  case 1
  then show ?case by simp
next
  case (2 c cs)
  show ?case
  proof (cases "isspace c")
    case True
    have "\<not> isspace (hd (collapse_ws (dropWhile isspace cs)))"
      if "collapse_ws (dropWhile isspace cs) \<noteq> []"
    proof -
      from that have ne: "dropWhile isspace cs \<noteq> []" by (simp add: collapse_ws_Nil_iff)
      then have "\<not> isspace (hd (dropWhile isspace cs))" by (rule hd_dropWhile)
      with ne show ?thesis by (simp add: hd_collapse_ws)
    qed
    with True 2 show ?thesis by simp
  next
    case False
    with 2 show ?thesis by simp
  qed
qed

lemma collapse_ws_spaced: "spaced s \<Longrightarrow> collapse_ws s = s"
proof (induction s)
  case Nil
  then show ?case by simp
next
  case (Cons c cs)
  then have ih: "collapse_ws cs = cs" by simp
  show ?case
  proof (cases "isspace c")
    case True
    with Cons.prems have c: "c = CHR '' ''" and h: "cs \<noteq> [] \<Longrightarrow> \<not> isspace (hd cs)"
      by simp_all
    have "dropWhile isspace cs = cs" using h by (cases cs) simp_all
    with True c ih show ?thesis by simp
  next
    case False
    with ih show ?thesis by simp
  qed
qed

lemma spaced_append_right: "spaced (xs @ ys) \<Longrightarrow> spaced ys"
  by (induction xs) simp_all

lemma spaced_append_left: "spaced (xs @ ys) \<Longrightarrow> spaced xs"
proof (induction xs)
  case Nil
  then show ?case by simp
next
  case (Cons x xs)
  then show ?case by (cases xs) auto
qed

lemma rstrip_decomp: "s = rstrip s @ rev (takeWhile isspace (rev s))"
  by (simp add: rstrip_def rev_append [symmetric] del: rev_append)

lemma spaced_strip: "spaced s \<Longrightarrow> spaced (strip s)"
proof -
  assume s: "spaced s"
  have "s = takeWhile isspace s @ lstrip s" by (simp add: lstrip_def)
  with s have "spaced (lstrip s)" by (metis spaced_append_right)
  moreover have "lstrip s = rstrip (lstrip s) @ rev (takeWhile isspace (rev (lstrip s)))"
    by (rule rstrip_decomp)
  ultimately show ?thesis unfolding strip_def by (metis spaced_append_left)
qed

lemma strip_ends: "strip s \<noteq> [] \<Longrightarrow> \<not> isspace (hd (strip s)) \<and> \<not> isspace (last (strip s))"
proof -
  assume ne: "strip s \<noteq> []"
  define l where "l = lstrip s"
  define r where "r = rstrip l"
  have sr: "strip s = r" by (simp add: strip_def l_def r_def)
  with ne have rne: "r \<noteq> []" by simp
  have lr: "l = r @ rev (takeWhile isspace (rev l))"
    unfolding r_def by (rule rstrip_decomp)
  with rne have lne: "l \<noteq> []" by auto
  then have "\<not> isspace (hd l)" unfolding l_def lstrip_def by (rule hd_dropWhile)
  moreover from lr rne have "hd l = hd r" by (metis hd_append2)
  moreover have "\<not> isspace (last r)"
  proof -
    from rne have "dropWhile isspace (rev l) \<noteq> []" by (simp add: r_def rstrip_def)
    then have "\<not> isspace (hd (dropWhile isspace (rev l)))" by (rule hd_dropWhile)
    moreover have "last r = hd (dropWhile isspace (rev l))"
      using rne by (simp add: r_def rstrip_def last_rev)
    ultimately show ?thesis by simp
  qed
  ultimately show ?thesis by (simp add: sr)
qed

lemma strip_strip: "strip (strip s) = strip s"
proof (cases "strip s = []")
  case True
  have "strip [] = []" by (simp add: strip_def lstrip_def rstrip_def)
  with True show ?thesis by simp
next
  case False
  with strip_ends [OF False] show ?thesis by (intro strip_id) simp_all
qed

lemma run_callbacks_None: "run_callbacks None evs = []"
  by (induction evs) simp_all

lemma run_callbacks_DriveResult:
  "run_callbacks (Some (DriveResult a)) evs =
     (if ResultReady \<in> set evs then [Reply a ''ok: drive done''] else [])"
proof (induction evs)
  case Nil
  then show ?case by simp
next
  case (Cons ev evs)
  then show ?case
    by (cases ev) (simp_all add: drive_result_def run_callbacks_None)
qed

lemma run_callbacks_RotateResult:
  "run_callbacks (Some (RotateResult a)) evs =
     (if ResultReady \<in> set evs then [Reply a ''ok: rotate done''] else [])"
proof (induction evs)
  case Nil
  then show ?case by simp
next
  case (Cons ev evs)
  then show ?case
    by (cases ev) (simp_all add: rotate_result_def run_callbacks_None)
qed

section \<open>The sanitizer\<close>

text \<open>
  C4, as amended. \<open>strip_wrappers\<close> removes one layer of quotes and one marker at each
  end, so a second application can remove more. It is idempotent on every text whose
  sanitized form carries no further wrapper: if \<open>strip_wrappers x\<close> is not enclosed in
  quotes and neither marker pattern matches at its ends, then applying \<open>strip_wrappers\<close>
  again returns it unchanged.
\<close>

theorem strip_wrappers_idempotent_unwrapped:
  assumes "\<not> quoted (strip_wrappers x)"
    and "match_start_marker (strip_wrappers x) = None"
    and "match_end_marker (strip_wrappers x) = None"
  shows "strip_wrappers (strip_wrappers x) = strip_wrappers x"
proof -
  define y where "y = strip_wrappers x"
  obtain t where y: "y = strip (collapse_ws t)"
    by (simp add: y_def strip_wrappers_def Let_def)
  have "spaced y" unfolding y by (intro spaced_strip spaced_collapse_ws)
  then have c: "collapse_ws y = y" by (rule collapse_ws_spaced)
  have s: "strip y = y" unfolding y by (rule strip_strip)
  show ?thesis
    using assms s c unfolding y_def [symmetric]
    by (intro strip_wrappers_steps [where ?t0.0 = y and ?t1.0 = y and ?t2.0 = y and ?t3.0 = y])
       simp_all
qed

theorem strip_wrappers_idempotent_unwrapped_witness:
  "\<not> quoted (strip_wrappers ''  <START>  drive   forward 2 <end>  '') \<and>
   match_start_marker (strip_wrappers ''  <START>  drive   forward 2 <end>  '') = None \<and>
   match_end_marker (strip_wrappers ''  <START>  drive   forward 2 <end>  '') = None \<and>
   strip_wrappers ''  <START>  drive   forward 2 <end>  '' = ''drive forward 2'' \<and>
   strip_wrappers (strip_wrappers ''  <START>  drive   forward 2 <end>  '') = ''drive forward 2''"
proof -
  have x: "strip_wrappers ''  <START>  drive   forward 2 <end>  '' = ''drive forward 2''"
    by (rule strip_wrappers_steps) (simp add: sw_eval)+
  have q: "\<not> quoted (strip_wrappers ''  <START>  drive   forward 2 <end>  '')"
    unfolding x by (simp add: sw_eval)
  have s: "match_start_marker (strip_wrappers ''  <START>  drive   forward 2 <end>  '') = None"
    unfolding x by (simp add: sw_eval)
  have e: "match_end_marker (strip_wrappers ''  <START>  drive   forward 2 <end>  '') = None"
    unfolding x by (simp add: sw_eval)
  from strip_wrappers_idempotent_unwrapped [OF q s e] q s e x show ?thesis by simp
qed

text \<open>
  The claim as stated fails: of two start markers the first application removes one,
  and of two layers of quotes it removes one; the second application removes the next.
\<close>

theorem strip_wrappers_idempotent_counterexample:
  "strip_wrappers ''<START><START>go'' = ''<START>go'' \<and>
   strip_wrappers (strip_wrappers ''<START><START>go'') = ''go'' \<and>
   strip_wrappers ([CHR 0x22, CHR 0x22] @ ''stop'' @ [CHR 0x22, CHR 0x22]) =
     [CHR 0x22] @ ''stop'' @ [CHR 0x22] \<and>
   strip_wrappers (strip_wrappers ([CHR 0x22, CHR 0x22] @ ''stop'' @ [CHR 0x22, CHR 0x22])) =
     ''stop''"
proof -
  have a: "strip_wrappers ''<START><START>go'' = ''<START>go''"
    by (rule strip_wrappers_steps) (simp add: sw_eval)+
  have b: "strip_wrappers ''<START>go'' = ''go''"
    by (rule strip_wrappers_steps) (simp add: sw_eval)+
  have c: "strip_wrappers ([CHR 0x22, CHR 0x22] @ ''stop'' @ [CHR 0x22, CHR 0x22]) =
             [CHR 0x22] @ ''stop'' @ [CHR 0x22]"
    by (rule strip_wrappers_steps) (simp add: sw_eval)+
  have d: "strip_wrappers ([CHR 0x22] @ ''stop'' @ [CHR 0x22]) = ''stop''"
    by (rule strip_wrappers_steps) (simp add: sw_eval)+
  show ?thesis by (simp only: a b c d simp_thms)
qed

section \<open>The command handler\<close>

text \<open>
  C3. The handler compares the text with the three lower-case spellings of stop by
  \<open>in\<close>, although the three patterns after it are matched with \<open>re.I\<close>. A stop
  command in upper or mixed case reaches none of the branches and gets the parse error;
  nothing is published. The last line shows the lower-case command for comparison.
\<close>

theorem stop_is_case_sensitive:
  "handle_command self ''STOP'' addr =
     [Reply addr (''error: could not parse command'' @ [newline] @ COMMAND_HELP)] \<and>
   handle_command self ''E-Stop'' addr =
     [Reply addr (''error: could not parse command'' @ [newline] @ COMMAND_HELP)] \<and>
   handle_command self ''EStop'' addr =
     [Reply addr (''error: could not parse command'' @ [newline] @ COMMAND_HELP)] \<and>
   udp_datagram self ''Stop'' addr =
     [Reply addr (''error: could not parse command'' @ [newline] @ COMMAND_HELP)] \<and>
   handle_command self ''stop'' addr = publish_velocity self 0 0 @ [Reply addr ''ok: stopped'']"
proof -
  have a: "handle_command self ''STOP'' addr =
     [Reply addr (''error: could not parse command'' @ [newline] @ COMMAND_HELP)]"
    by (rule handle_command_unparsed) (simp_all add: re_eval)
  have b: "handle_command self ''E-Stop'' addr =
     [Reply addr (''error: could not parse command'' @ [newline] @ COMMAND_HELP)]"
    by (rule handle_command_unparsed) (simp_all add: re_eval)
  have c: "handle_command self ''EStop'' addr =
     [Reply addr (''error: could not parse command'' @ [newline] @ COMMAND_HELP)]"
    by (rule handle_command_unparsed) (simp_all add: re_eval)
  have s: "strip_wrappers ''Stop'' = ''Stop''"
    by (rule strip_wrappers_steps) (simp add: sw_eval)+
  have d0: "handle_command self ''Stop'' addr =
     [Reply addr (''error: could not parse command'' @ [newline] @ COMMAND_HELP)]"
    by (rule handle_command_unparsed) (simp_all add: re_eval)
  have d: "udp_datagram self ''Stop'' addr =
     [Reply addr (''error: could not parse command'' @ [newline] @ COMMAND_HELP)]"
    by (simp add: udp_datagram_def recvfrom_def decode_ignore_def is_ascii_def s d0)
  have e: "handle_command self ''stop'' addr =
     publish_velocity self 0 0 @ [Reply addr ''ok: stopped'']"
    by (simp add: handle_command_def)
  from a b c d e show ?thesis by blast
qed

text \<open>
  C5, as amended. The handler takes the absolute value of the number before it applies
  the direction, so a sign in the text is dropped: for every text the drive pattern
  matches, with the groups \<open>g1\<close>, \<open>g2\<close>, \<open>g3\<close>, the direction word is \<open>forward\<close> or
  \<open>backward\<close> in some mixture of cases, and the distance handed on is the absolute
  value of the number for \<open>forward\<close> and its negation for \<open>backward\<close>.
\<close>

theorem drive_direction_sign:
  assumes "match_drive text = Some (g1, g2, g3)"
  shows "(map lower g1 = ''forward'' \<or> map lower g1 = ''backward'') \<and>
         handle_command self text addr =
           send_drive_distance self
             (if map lower g1 = ''forward'' then \<bar>py_float g2\<bar> else - \<bar>py_float g2\<bar>)
             (clamp (case g3 of Some g \<Rightarrow> py_float g | None \<Rightarrow> default_drive_speed self) 0.05 0.5)
             addr"
  using assms match_drive_direction [OF assms] handle_command_drive [OF assms] by simp

theorem drive_direction_sign_witness:
  "match_drive ''Drive BACKward 1.5 speed 0.3'' = Some (''BACKward'', ''1.5'', Some ''0.3'') \<and>
   handle_command default_node ''Drive BACKward 1.5 speed 0.3'' (''10.0.0.7'', 5000) =
     [SendGoalAsync (DriveDistanceGoal (- 1.5) 0.3) (DriveGoalSent (''10.0.0.7'', 5000))]"
proof -
  have m: "match_drive ''Drive BACKward 1.5 speed 0.3'' =
             Some (''BACKward'', ''1.5'', Some ''0.3'')"
    by (simp add: re_eval)
  have l: "map lower ''BACKward'' = ''backward''" by (simp add: lower_def)
  have f: "py_float ''1.5'' = 1.5" "py_float ''0.3'' = 0.3" by (simp_all add: re_eval)
  from drive_direction_sign [OF m, of default_node "(''10.0.0.7'', 5000)"] m show ?thesis
    by (simp add: l f clamp_def send_drive_distance_def default_node_def)
qed

text \<open>
  The claim as stated fails for a number with a minus sign: \<open>drive forward -2\<close> drives
  two metres forward, not minus two, and \<open>drive backward -2\<close> drives two metres
  backward, not two forward.
\<close>

theorem drive_direction_sign_counterexample:
  "match_drive ''drive forward -2'' = Some (''forward'', ''-2'', None) \<and>
   py_float ''-2'' = - 2 \<and>
   handle_command default_node ''drive forward -2'' (''10.0.0.7'', 5000) =
     [SendGoalAsync (DriveDistanceGoal 2 0.25) (DriveGoalSent (''10.0.0.7'', 5000))] \<and>
   handle_command default_node ''drive backward -2'' (''10.0.0.7'', 5000) =
     [SendGoalAsync (DriveDistanceGoal (- 2) 0.25) (DriveGoalSent (''10.0.0.7'', 5000))]"
proof -
  have m1: "match_drive ''drive forward -2'' = Some (''forward'', ''-2'', None)"
    by (simp add: re_eval)
  have m2: "match_drive ''drive backward -2'' = Some (''backward'', ''-2'', None)"
    by (simp add: re_eval)
  have f: "py_float ''-2'' = - 2" by (simp add: re_eval)
  show ?thesis
    using handle_command_drive [OF m1, of default_node "(''10.0.0.7'', 5000)"]
      handle_command_drive [OF m2, of default_node "(''10.0.0.7'', 5000)"] m1
    by (simp add: lower_def f clamp_def send_drive_distance_def default_node_def)
qed

text \<open>
  C7. A velocity outside the range is clamped, not rejected. For every text the velocity
  pattern matches, with the groups \<open>g1\<close> and \<open>g2\<close>, the handler publishes and
  acknowledges the two numbers, each replaced by the nearer end of its range when it
  lies outside: \<open>[-0.6, 0.6]\<close> for the linear and \<open>[-2, 2]\<close> for the angular velocity.
  So \<open>vel 10 0\<close> publishes the linear velocity \<open>0.6\<close> and \<open>vel -10 0\<close> publishes
  \<open>-0.6\<close>; an angular velocity of \<open>9.5\<close> becomes \<open>2\<close>. Whatever the number, the
  clamped value lies in the closed range.
\<close>

theorem vel_is_clamped:
  "(match_vel text = Some (g1, g2) \<longrightarrow>
      handle_command self text addr =
        (let vx = (if py_float g1 < - 0.6 then - 0.6
                   else if 0.6 < py_float g1 then 0.6 else py_float g1);
             wz = (if py_float g2 < - 2 then - 2
                   else if 2 < py_float g2 then 2 else py_float g2)
         in publish_velocity self vx wz @ [ReplyVel addr vx wz])) \<and>
   handle_command self ''vel 10 0'' addr =
     publish_velocity self 0.6 0 @ [ReplyVel addr 0.6 0] \<and>
   handle_command self ''vel -10 0'' addr =
     publish_velocity self (- 0.6) 0 @ [ReplyVel addr (- 0.6) 0] \<and>
   handle_command self ''vel 0 9.5'' addr =
     publish_velocity self 0 2 @ [ReplyVel addr 0 2] \<and>
   - 0.6 \<le> clamp v (- 0.6) 0.6 \<and> clamp v (- 0.6) 0.6 \<le> 0.6 \<and>
   - 2 \<le> clamp w (- 2.0) 2.0 \<and> clamp w (- 2.0) 2.0 \<le> 2"
proof -
  have c1: "clamp u (- 0.6) 0.6 = (if u < - 0.6 then - 0.6 else if 0.6 < u then 0.6 else u)"
    for u by (simp add: clamp_def)
  have c2: "clamp u (- 2.0) 2.0 = (if u < - 2 then - 2 else if 2 < u then 2 else u)"
    for u by (simp add: clamp_def)
  have g: "match_vel text = Some (g1, g2) \<longrightarrow>
      handle_command self text addr =
        (let vx = (if py_float g1 < - 0.6 then - 0.6
                   else if 0.6 < py_float g1 then 0.6 else py_float g1);
             wz = (if py_float g2 < - 2 then - 2
                   else if 2 < py_float g2 then 2 else py_float g2)
         in publish_velocity self vx wz @ [ReplyVel addr vx wz])"
  proof
    assume m: "match_vel text = Some (g1, g2)"
    show "handle_command self text addr =
        (let vx = (if py_float g1 < - 0.6 then - 0.6
                   else if 0.6 < py_float g1 then 0.6 else py_float g1);
             wz = (if py_float g2 < - 2 then - 2
                   else if 2 < py_float g2 then 2 else py_float g2)
         in publish_velocity self vx wz @ [ReplyVel addr vx wz])"
      unfolding handle_command_vel [OF m] c1 c2 by (simp add: Let_def)
  qed
  have e: "handle_command self ''vel 10 0'' addr =
     publish_velocity self 0.6 0 @ [ReplyVel addr 0.6 0] \<and>
   handle_command self ''vel -10 0'' addr =
     publish_velocity self (- 0.6) 0 @ [ReplyVel addr (- 0.6) 0] \<and>
   handle_command self ''vel 0 9.5'' addr =
     publish_velocity self 0 2 @ [ReplyVel addr 0 2]"
    by (simp add: handle_command_def re_eval clamp_def Let_def)
  have r: "- 0.6 \<le> clamp v (- 0.6) 0.6 \<and> clamp v (- 0.6) 0.6 \<le> 0.6 \<and>
   - 2 \<le> clamp w (- 2.0) 2.0 \<and> clamp w (- 2.0) 2.0 \<le> 2"
    by (simp add: clamp_def)
  from g e r show ?thesis by blast
qed

theorem vel_is_clamped_witness:
  "match_vel ''velocity 10 -7.5'' = Some (''10'', ''-7.5'') \<and>
   handle_command default_node ''velocity 10 -7.5'' (''10.0.0.7'', 5000) =
     [Publish (TwistStamped 0.6 (- 2)), ReplyVel (''10.0.0.7'', 5000) 0.6 (- 2)]"
proof -
  have m: "match_vel ''velocity 10 -7.5'' = Some (''10'', ''-7.5'')"
    by (simp add: re_eval)
  have f: "py_float ''10'' = 10" "py_float ''-7.5'' = - 7.5" by (simp_all add: re_eval)
  from vel_is_clamped [of "''velocity 10 -7.5''" "''10''" "''-7.5''" default_node
         "(''10.0.0.7'', 5000)" 0 0] m
  show ?thesis
    by (simp add: f Let_def publish_velocity_def default_node_def)
qed

text \<open>
  C8. A text that is none of the three stop words and that none of the three patterns
  matches gets one reply, the parse error followed by the help text, and nothing else:
  no velocity is published and no goal is sent. \<open>dance now\<close> is such a text.
\<close>

theorem unparseable_command_reply:
  assumes "text \<notin> set [''stop'', ''e-stop'', ''estop'']"
    and "match_vel text = None" and "match_drive text = None" and "match_rotate text = None"
  shows "handle_command self text addr =
           [Reply addr (''error: could not parse command'' @ [newline] @ COMMAND_HELP)]"
  using assms by (simp add: handle_command_def)

theorem unparseable_command_reply_witness:
  "''dance now'' \<notin> set [''stop'', ''e-stop'', ''estop''] \<and>
   match_vel ''dance now'' = None \<and> match_drive ''dance now'' = None \<and>
   match_rotate ''dance now'' = None \<and>
   handle_command default_node ''dance now'' (''10.0.0.7'', 5000) =
     [Reply (''10.0.0.7'', 5000) (''error: could not parse command'' @ [newline] @ COMMAND_HELP)]"
proof -
  have s: "''dance now'' \<notin> set [''stop'', ''e-stop'', ''estop'']" by simp
  have v: "match_vel ''dance now'' = None" by (simp add: re_eval)
  have d: "match_drive ''dance now'' = None" by (simp add: re_eval)
  have r: "match_rotate ''dance now'' = None" by (simp add: re_eval)
  from unparseable_command_reply [OF s v d r] s v d r show ?thesis by blast
qed

section \<open>The replies of a goal\<close>

text \<open>
  C9. For a drive or rotate goal whose send-goal future completes with the response
  \<open>r\<close>, followed by any events \<open>evs\<close>: if \<open>r\<close> is no handle or a handle that is not
  accepted, the replies are the one rejection and nothing after it; if the handle is
  accepted, the first reply is the acceptance, and the completion reply follows it
  exactly when a result event is among \<open>evs\<close>, once.
\<close>

theorem goal_reply_sequence:
  "((r = None \<or> (\<exists>h. r = Some h \<and> \<not> accepted h)) \<longrightarrow>
      run_callbacks (Some (DriveGoalSent a)) (GoalResponse r # evs) =
        [Reply a ''error: drive goal rejected''] \<and>
      run_callbacks (Some (RotateGoalSent a)) (GoalResponse r # evs) =
        [Reply a ''error: rotate goal rejected''])
   \<and> (accepted h \<longrightarrow>
      run_callbacks (Some (DriveGoalSent a)) (GoalResponse (Some h) # evs) =
        Reply a ''ok: drive goal accepted'' #
          (if ResultReady \<in> set evs then [Reply a ''ok: drive done''] else []) \<and>
      run_callbacks (Some (RotateGoalSent a)) (GoalResponse (Some h) # evs) =
        Reply a ''ok: rotate goal accepted'' #
          (if ResultReady \<in> set evs then [Reply a ''ok: rotate done''] else []))"
  by (auto simp: drive_goal_sent_def rotate_goal_sent_def run_callbacks_None
        run_callbacks_DriveResult run_callbacks_RotateResult)

theorem goal_reply_sequence_witness:
  "\<not> accepted \<lparr>accepted = False\<rparr> \<and> accepted \<lparr>accepted = True\<rparr> \<and>
   run_callbacks (Some (RotateGoalSent (''10.0.0.7'', 5000)))
     [GoalResponse (Some \<lparr>accepted = False\<rparr>), ResultReady] =
     [Reply (''10.0.0.7'', 5000) ''error: rotate goal rejected''] \<and>
   run_callbacks (Some (RotateGoalSent (''10.0.0.7'', 5000)))
     [GoalResponse (Some \<lparr>accepted = True\<rparr>), ResultReady] =
     [Reply (''10.0.0.7'', 5000) ''ok: rotate goal accepted'',
      Reply (''10.0.0.7'', 5000) ''ok: rotate done'']"
  using goal_reply_sequence [of "Some \<lparr>accepted = False\<rparr>" "(''10.0.0.7'', 5000)" "[ResultReady]"
          "\<lparr>accepted = True\<rparr>"]
  by simp


end
